theory Spec2Isabelle
  imports Main
begin

section \<open>Text and character classes\<close>

text \<open>
  A Python \<open>str\<close> is modelled as a \<open>string\<close>; each \<open>char\<close> stands for one code point
  in the range U+0000 .. U+00FF, so the model covers texts whose code points are below 256.
  On that range the classes \<open>\d\<close>, \<open>\s\<close> and \<open>\w\<close> of Python's \<open>re\<close> module (for \<open>str\<close>
  patterns) and \<open>str.isspace\<close> are the sets written out below.
\<close>

definition code :: "char \<Rightarrow> nat" where
  "code c = of_char c"

definition in_range :: "char \<Rightarrow> char \<Rightarrow> char \<Rightarrow> bool" where
  "in_range lo hi c = (code lo \<le> code c \<and> code c \<le> code hi)"

definition uni_digit :: "char \<Rightarrow> bool" where
  "uni_digit c = in_range CHR ''0'' CHR ''9'' c"

definition uni_space :: "char \<Rightarrow> bool" where
  "uni_space c = ((9 \<le> code c \<and> code c \<le> 13) \<or> (28 \<le> code c \<and> code c \<le> 32)
     \<or> code c = 133 \<or> code c = 160)"

definition uni_word :: "char \<Rightarrow> bool" where
  "uni_word c = (in_range CHR ''0'' CHR ''9'' c \<or> in_range CHR ''A'' CHR ''Z'' c
     \<or> c = CHR ''_'' \<or> in_range CHR ''a'' CHR ''z'' c
     \<or> code c = 170 \<or> code c = 178 \<or> code c = 179 \<or> code c = 181 \<or> code c = 185
     \<or> code c = 186 \<or> (188 \<le> code c \<and> code c \<le> 190) \<or> (192 \<le> code c \<and> code c \<le> 214)
     \<or> (216 \<le> code c \<and> code c \<le> 246) \<or> 248 \<le> code c)"

text \<open>One item of a bracketed character set: a literal, a range, or one of the classes.\<close>

datatype citem = Ch char | Rg char char | CDigit | CSpace

fun in_item :: "citem \<Rightarrow> char \<Rightarrow> bool" where
  "in_item (Ch x) c = (c = x)"
| "in_item (Rg lo hi) c = in_range lo hi c"
| "in_item CDigit c = uni_digit c"
| "in_item CSpace c = uni_space c"

definition in_cls :: "citem list \<Rightarrow> char \<Rightarrow> bool" where
  "in_cls cs c = list_ex (\<lambda>i. in_item i c) cs"


section \<open>A backtracking matcher for the pattern language the program uses\<close>

text \<open>
  The constructs that occur in the program's patterns: a character set, concatenation,
  greedy repetition \<open>{lo,hi}\<close> (\<open>None\<close> for no upper bound), a capturing group, the
  one-character negative lookbehind \<open>(?<!...)\<close> and lookahead \<open>(?!...)\<close> on a character
  set, and the word boundary \<open>\b\<close>.
\<close>

datatype rx =
    Cls "citem list"
  | Cat rx rx
  | Rep nat "nat option" rx
  | Grp rx
  | NotBehind "citem list"
  | NotAhead "citem list"
  | WordB

text \<open>
  A matcher state: the text before the current position (nearest character first), the
  text from the current position on, and the groups captured so far.
\<close>

type_synonym mstate = "string \<times> string \<times> string list"

text \<open>
  Greedy repetition: every way of matching between \<open>lo\<close> and \<open>hi\<close> further iterations,
  in the order in which a backtracking matcher tries them (one more iteration first).
\<close>

primrec rep :: "(mstate \<Rightarrow> mstate list) \<Rightarrow> nat \<Rightarrow> nat \<Rightarrow> mstate \<Rightarrow> mstate list" where
  "rep m lo 0 st = (if lo = 0 then [st] else [])"
| "rep m lo (Suc n) st =
     concat (map (rep m (lo - 1) n) (m st)) @ (if lo = 0 then [st] else [])"

definition at_boundary :: "string \<Rightarrow> string \<Rightarrow> bool" where
  "at_boundary b a =
     ((case b of [] \<Rightarrow> False | x # _ \<Rightarrow> uni_word x) \<noteq> (case a of [] \<Rightarrow> False | y # _ \<Rightarrow> uni_word y))"

text \<open>
  All end states of matching a pattern from a state, in backtracking order. An unbounded
  repetition is cut at the length of the remaining text: every iteration of the program's
  repeated patterns consumes a character.
\<close>

primrec rx_m :: "rx \<Rightarrow> mstate \<Rightarrow> mstate list" where
  "rx_m (Cls cs) = (\<lambda>(b, a, g).
     (case a of [] \<Rightarrow> [] | x # xs \<Rightarrow> if in_cls cs x then [(x # b, xs, g)] else []))"
| "rx_m (Cat r1 r2) = (\<lambda>st. concat (map (rx_m r2) (rx_m r1 st)))"
| "rx_m (Rep lo hi r) = (\<lambda>(b, a, g).
     rep (rx_m r) lo (case hi of None \<Rightarrow> length a | Some h \<Rightarrow> h) (b, a, g))"
| "rx_m (Grp r) = (\<lambda>(b, a, g).
     map (\<lambda>(b', a', g'). (b', a', g' @ [take (length a - length a') a])) (rx_m r (b, a, g)))"
| "rx_m (NotBehind cs) = (\<lambda>(b, a, g).
     (case b of [] \<Rightarrow> [(b, a, g)] | x # _ \<Rightarrow> if in_cls cs x then [] else [(b, a, g)]))"
| "rx_m (NotAhead cs) = (\<lambda>(b, a, g).
     (case a of [] \<Rightarrow> [(b, a, g)] | x # _ \<Rightarrow> if in_cls cs x then [] else [(b, a, g)]))"
| "rx_m WordB = (\<lambda>(b, a, g). if at_boundary b a then [(b, a, g)] else [])"

text \<open>
  A match object: group 0 (the matched text) followed by the captured groups.
  \<open>match_at\<close> is the first match starting exactly at the current position.
\<close>

definition match_at :: "rx \<Rightarrow> string \<Rightarrow> string \<Rightarrow> (string list \<times> string \<times> string) option" where
  "match_at r b a =
     (case rx_m r (b, a, []) of
        [] \<Rightarrow> None
      | (b', a', g) # _ \<Rightarrow> Some (take (length a - length a') a # g, b', a'))"

definition group :: "string list \<Rightarrow> nat \<Rightarrow> string" where
  "group m n = (if n < length m then m ! n else [])"

text \<open>\<open>pattern.search(s)\<close>, as a truth value: is there a match at some position?\<close>

fun rx_search_from :: "rx \<Rightarrow> string \<Rightarrow> string \<Rightarrow> bool" where
  "rx_search_from r b [] = (match_at r b [] \<noteq> None)"
| "rx_search_from r b (x # xs) = (match_at r b (x # xs) \<noteq> None \<or> rx_search_from r (x # b) xs)"

definition rx_search :: "rx \<Rightarrow> string \<Rightarrow> bool" where
  "rx_search r s = rx_search_from r [] s"

text \<open>\<open>re.fullmatch\<close>: some way of matching from the start consumes the whole text.\<close>

definition rx_fullmatch :: "rx \<Rightarrow> string \<Rightarrow> bool" where
  "rx_fullmatch r s = list_ex (\<lambda>(b, a, g). a = []) (rx_m r ([], s, []))"

text \<open>
  \<open>pattern.sub(f, s)\<close>: the leftmost matches, left to right and not overlapping, each
  replaced by \<open>f\<close> of its match object; lookbehind and \<open>\b\<close> see the original text.
  None of the program's patterns matches the empty text; an empty match is replaced and
  the scan moves one character on.
\<close>

function rx_sub_from :: "rx \<Rightarrow> (string list \<Rightarrow> string) \<Rightarrow> string \<Rightarrow> string \<Rightarrow> string" where
  "rx_sub_from r f b a =
     (case match_at r b a of
        Some (m, b', a') \<Rightarrow>
          if length a' < length a then f m @ rx_sub_from r f b' a'
          else f m @ (case a of [] \<Rightarrow> [] | x # xs \<Rightarrow> x # rx_sub_from r f (x # b) xs)
      | None \<Rightarrow> (case a of [] \<Rightarrow> [] | x # xs \<Rightarrow> x # rx_sub_from r f (x # b) xs))"
  by pat_completeness auto
termination
  by (relation "measure (\<lambda>(r, f, b, a). length a)") auto

definition rx_sub :: "rx \<Rightarrow> (string list \<Rightarrow> string) \<Rightarrow> string \<Rightarrow> string" where
  "rx_sub r f s = rx_sub_from r f [] s"

text \<open>
  \<open>re.split(pattern, s)\<close>: the pieces between the matches, each match contributing its
  captured groups between two pieces. \<open>cur\<close> is the piece being read, last character first.
\<close>

function rx_split_from :: "rx \<Rightarrow> string \<Rightarrow> string \<Rightarrow> string \<Rightarrow> string list" where
  "rx_split_from r b a cur =
     (case match_at r b a of
        Some (m, b', a') \<Rightarrow>
          if length a' < length a then rev cur # tl m @ rx_split_from r b' a' []
          else (case a of [] \<Rightarrow> [rev cur] | x # xs \<Rightarrow> rx_split_from r (x # b) xs (x # cur))
      | None \<Rightarrow> (case a of [] \<Rightarrow> [rev cur] | x # xs \<Rightarrow> rx_split_from r (x # b) xs (x # cur)))"
  by pat_completeness auto
termination
  by (relation "measure (\<lambda>(r, b, a, cur). length a)") auto

definition rx_split :: "rx \<Rightarrow> string \<Rightarrow> string list" where
  "rx_split r s = rx_split_from r [] s []"


section \<open>The patterns of the program\<close>

abbreviation digit :: rx where "digit \<equiv> Cls [CDigit]"
abbreviation spaces0 :: rx where "spaces0 \<equiv> Rep 0 None (Cls [CSpace])"
abbreviation upper_lower :: "citem list" where
  "upper_lower \<equiv> [Rg CHR ''A'' CHR ''Z'', Rg CHR ''a'' CHR ''z'']"
abbreviation alnum :: "citem list" where
  "alnum \<equiv> upper_lower @ [Rg CHR ''0'' CHR ''9'']"

text \<open>\<^verbatim>\<open>(?<!\d)(\d{10})(?!\d)\<close>\<close>
definition RE_TEN_DIGITS :: rx where
  "RE_TEN_DIGITS = Cat (NotBehind [CDigit]) (Cat (Grp (Rep 10 (Some 10) digit)) (NotAhead [CDigit]))"

text \<open>\<^verbatim>\<open>(?<!\d)(\d{12})(?!\d)\<close>\<close>
definition RE_AADHAR :: rx where
  "RE_AADHAR = Cat (NotBehind [CDigit]) (Cat (Grp (Rep 12 (Some 12) digit)) (NotAhead [CDigit]))"

text \<open>\<^verbatim>\<open>\b([A-PR-WYa-pr-wy][0-9]{7})\b\<close>\<close>
definition RE_PASSPORT :: rx where
  "RE_PASSPORT =
     Cat WordB (Cat
       (Grp (Cat (Cls [Rg CHR ''A'' CHR ''P'', Rg CHR ''R'' CHR ''W'', Ch CHR ''Y'',
                       Rg CHR ''a'' CHR ''p'', Rg CHR ''r'' CHR ''w'', Ch CHR ''y''])
                 (Rep 7 (Some 7) (Cls [Rg CHR ''0'' CHR ''9'']))))
       WordB)"

text \<open>\<^verbatim>\<open>\b([A-Za-z0-9._-]{2,})@([A-Za-z][A-Za-z0-9._-]{1,})\b\<close>\<close>
definition RE_UPI :: rx where
  "RE_UPI =
     Cat WordB (Cat
       (Grp (Rep 2 None (Cls (alnum @ [Ch CHR ''.'', Ch CHR ''_'', Ch CHR ''-'']))))
       (Cat (Cls [Ch CHR ''@'']) (Cat
       (Grp (Cat (Cls upper_lower)
                 (Rep 1 None (Cls (alnum @ [Ch CHR ''.'', Ch CHR ''_'', Ch CHR ''-''])))))
       WordB)))"

text \<open>\<^verbatim>\<open>\b([A-Za-z0-9._%+-]{1,64})@([A-Za-z0-9.-]{1,255}\.[A-Za-z]{2,24})\b\<close>\<close>
definition RE_EMAIL :: rx where
  "RE_EMAIL =
     Cat WordB (Cat
       (Grp (Rep 1 (Some 64)
          (Cls (alnum @ [Ch CHR ''.'', Ch CHR ''_'', Ch CHR ''%'', Ch CHR ''+'', Ch CHR ''-'']))))
       (Cat (Cls [Ch CHR ''@'']) (Cat
       (Grp (Cat (Rep 1 (Some 255) (Cls (alnum @ [Ch CHR ''.'', Ch CHR ''-''])))
            (Cat (Cls [Ch CHR ''.''])
                 (Rep 2 (Some 24) (Cls upper_lower)))))
       WordB)))"

text \<open>\<^verbatim>\<open>\b((?:\d{1,3}\.){3}\d{1,3})\b\<close>\<close>
definition RE_IPV4 :: rx where
  "RE_IPV4 =
     Cat WordB (Cat
       (Grp (Cat (Rep 3 (Some 3) (Cat (Rep 1 (Some 3) digit) (Cls [Ch CHR ''.''])))
                 (Rep 1 (Some 3) digit)))
       WordB)"

text \<open>\<^verbatim>\<open>(?<!\d)(\d{4})\s*(\d{4})\s*(\d{4})(?!\d)\<close>, the pattern inside \<open>mask_aadhar_digits\<close>.\<close>
definition RE_GROUPED :: rx where
  "RE_GROUPED =
     Cat (NotBehind [CDigit]) (Cat (Grp (Rep 4 (Some 4) digit)) (Cat spaces0
       (Cat (Grp (Rep 4 (Some 4) digit)) (Cat spaces0
       (Cat (Grp (Rep 4 (Some 4) digit)) (NotAhead [CDigit]))))))"

text \<open>\<^verbatim>\<open>\s+\<close> and \<^verbatim>\<open>(\s+)\<close>\<close>
definition RE_WS :: rx where
  "RE_WS = Rep 1 None (Cls [CSpace])"

definition RE_WS_GROUP :: rx where
  "RE_WS_GROUP = Grp (Rep 1 None (Cls [CSpace]))"

text \<open>\<^verbatim>\<open>[A-Za-z][A-Za-z.'-]*\<close>\<close>
definition RE_NAME_TOKEN :: rx where
  "RE_NAME_TOKEN =
     Cat (Cls upper_lower)
         (Rep 0 None (Cls (upper_lower @ [Ch CHR ''.'', Ch (CHR 0x27), Ch CHR ''-''])))"

definition NUMERIC_ID_KEYS :: "string set" where
  "NUMERIC_ID_KEYS = {''order_id'', ''transaction_id'', ''product_id'', ''booking_reference'',
     ''customer_id'', ''warehouse_code'', ''ticket_id'', ''gst_number'', ''state_code''}"

definition PHONEY_KEYS :: "string set" where "PHONEY_KEYS = {''phone'', ''contact''}"
definition B_NAME_KEYS :: "string set" where "B_NAME_KEYS = {''name''}"
definition B_FIRST :: string where "B_FIRST = ''first_name''"
definition B_LAST :: string where "B_LAST = ''last_name''"
definition B_EMAIL_KEYS :: "string list" where "B_EMAIL_KEYS = [''email'', ''username'']"
definition B_ADDRESS_KEYS :: "string set" where "B_ADDRESS_KEYS = {''address''}"
definition B_ADDR_PARTS :: "string list" where "B_ADDR_PARTS = [''city'', ''state'', ''pin_code'']"
definition B_DEVICE_KEYS :: "string list" where "B_DEVICE_KEYS = [''device_id'']"
definition B_IP_KEYS :: "string set" where "B_IP_KEYS = {''ip_address''}"


section \<open>Masking helpers\<close>

text \<open>The slices \<open>d[:n]\<close> and \<open>d[-n:]\<close> (for \<open>n > 0\<close>) of Python.\<close>

definition py_prefix :: "nat \<Rightarrow> string \<Rightarrow> string" where
  "py_prefix n d = take n d"

definition py_suffix :: "nat \<Rightarrow> string \<Rightarrow> string" where
  "py_suffix n d = drop (length d - n) d"

definition xs_of :: "nat \<Rightarrow> string" where
  "xs_of n = replicate n CHR ''X''"

definition mask_phone_digits :: "string \<Rightarrow> string" where
  "mask_phone_digits s =
     rx_sub RE_TEN_DIGITS (\<lambda>m. let d = group m 1 in py_prefix 2 d @ xs_of 6 @ py_suffix 2 d) s"

definition mask_aadhar_digits :: "string \<Rightarrow> string" where
  "mask_aadhar_digits s =
     (let s_norm = rx_sub RE_GROUPED (\<lambda>m. group m 1 @ group m 2 @ group m 3) s
      in rx_sub RE_AADHAR (\<lambda>m. let d = group m 1 in ''XXXX XXXX '' @ py_suffix 4 d) s_norm)"

text \<open>\<open>p[0]\<close> and \<open>p[-1]\<close> are read on a match of eight characters.\<close>

definition mask_passport_in :: "string \<Rightarrow> string" where
  "mask_passport_in s =
     rx_sub RE_PASSPORT (\<lambda>m. let p = group m 1 in py_prefix 1 p @ xs_of 6 @ py_suffix 1 p) s"

definition mask_upi_in :: "string \<Rightarrow> string" where
  "mask_upi_in s =
     rx_sub RE_UPI (\<lambda>m.
       let user = group m 1; prov = group m 2; keep = min 2 (length user)
       in py_prefix keep user @ xs_of (length user - keep) @ ''@'' @ prov) s"

definition mask_email_str :: "string \<Rightarrow> string" where
  "mask_email_str s =
     rx_sub RE_EMAIL (\<lambda>m.
       let local = group m 1; dom = group m 2; keep = min 2 (length local)
       in py_prefix keep local @ xs_of (length local - keep) @ ''@'' @ dom) s"

definition isspace :: "string \<Rightarrow> bool" where
  "isspace t = (t \<noteq> [] \<and> list_all uni_space t)"

definition mask_name_token :: "string \<Rightarrow> string" where
  "mask_name_token t =
     (if isspace t then t
      else if rx_fullmatch RE_NAME_TOKEN t then py_prefix 1 t @ xs_of (length t - 1)
      else t)"

definition mask_name_full :: "string \<Rightarrow> string" where
  "mask_name_full name = concat (map mask_name_token (rx_split RE_WS_GROUP name))"

text \<open>\<open>s.split(sep)\<close> for a one-character separator, and \<open>sep.join(parts)\<close>.\<close>

fun split_on :: "char \<Rightarrow> string \<Rightarrow> string list" where
  "split_on sep [] = [[]]"
| "split_on sep (x # xs) =
     (if x = sep then [] # split_on sep xs
      else (case split_on sep xs of [] \<Rightarrow> [[x]] | p # ps \<Rightarrow> (x # p) # ps))"

fun join_with :: "string \<Rightarrow> string list \<Rightarrow> string" where
  "join_with sep [] = []"
| "join_with sep [p] = p"
| "join_with sep (p # q # ps) = p @ sep @ join_with sep (q # ps)"

definition mask_ip_in :: "string \<Rightarrow> string" where
  "mask_ip_in s =
     rx_sub RE_IPV4 (\<lambda>m.
       let parts = split_on CHR ''.'' (group m 1)
       in if length parts = 4 then join_with ''.'' (butlast parts @ [''X'']) else group m 1) s"

definition hard_redact :: "string \<Rightarrow> string" where
  "hard_redact _ = ''[REDACTED_PII]''"


section \<open>Field values and records\<close>

text \<open>
  A field value as \<open>json.loads\<close> delivers it. The program reads a value in three ways
  only: \<open>value is None\<close>, its truth value (\<open>rec.get(k)\<close>, \<open>value or ""\<close>) and
  \<open>str(value)\<close>. Text, integers and booleans are modelled as they are; any other value
  (a float, a list, a nested object) is \<open>POther t b\<close>, where \<open>t\<close> is its \<open>str()\<close> text
  and \<open>b\<close> its truth value.
\<close>

datatype pyval = PNone | PStr string | PInt int | PBool bool | POther string bool

text \<open>\<open>str\<close> of an integer: its decimal digits, after a minus sign when it is negative.\<close>

function pos_digits :: "int \<Rightarrow> string" where
  "pos_digits i =
     (if i < 10 then [char_of (48 + i)]
      else pos_digits (i div 10) @ [char_of (48 + i mod 10)])"
  by pat_completeness auto
termination
  by (relation "measure nat") auto

declare pos_digits.simps [simp del]

definition int_str :: "int \<Rightarrow> string" where
  "int_str i = (if i < 0 then CHR ''-'' # pos_digits (- i) else pos_digits i)"

fun py_str :: "pyval \<Rightarrow> string" where
  "py_str PNone = ''None''"
| "py_str (PStr s) = s"
| "py_str (PInt i) = int_str i"
| "py_str (PBool b) = (if b then ''True'' else ''False'')"
| "py_str (POther t b) = t"

fun truthy :: "pyval \<Rightarrow> bool" where
  "truthy PNone = False"
| "truthy (PStr s) = (s \<noteq> [])"
| "truthy (PInt i) = (i \<noteq> 0)"
| "truthy (PBool b) = b"
| "truthy (POther t b) = b"

text \<open>\<open>str(value or "")\<close>\<close>
definition str_or_empty :: "pyval \<Rightarrow> string" where
  "str_or_empty v = (if truthy v then py_str v else [])"

text \<open>
  A record is a \<open>dict\<close> with text keys: an association list whose keys are distinct, in
  the dict's iteration order. \<open>rec_get\<close> is \<open>rec.get(k)\<close>, which is \<open>None\<close> for a missing key.
\<close>

type_synonym pyrec = "(string \<times> pyval) list"

definition rec_get :: "pyrec \<Rightarrow> string \<Rightarrow> pyval" where
  "rec_get r k = (case map_of r k of None \<Rightarrow> PNone | Some v \<Rightarrow> v)"


section \<open>Utilities\<close>

definition strip :: "string \<Rightarrow> string" where
  "strip s = rev (dropWhile uni_space (rev (dropWhile uni_space s)))"

definition looks_like_full_name :: "pyval \<Rightarrow> bool" where
  "looks_like_full_name val =
     (let s = strip (str_or_empty val);
          tokens = filter (\<lambda>t. t \<noteq> []) (rx_split RE_WS s);
          alpha = filter (rx_fullmatch RE_NAME_TOKEN) tokens
      in length alpha \<ge> 2)"

definition valid_email :: "pyval \<Rightarrow> bool" where
  "valid_email val = rx_search RE_EMAIL (py_str val)"


section \<open>Counting the B-signals\<close>

record flags =
  f_name :: bool
  f_email :: bool
  f_address :: bool
  f_device_or_ip :: bool

text \<open>
  \<open>rec[k]\<close> is read only after \<open>rec.get(k)\<close> was found true, where both are the same value.
\<close>

definition count_b_signals :: "pyrec \<Rightarrow> nat \<times> flags \<times> nat \<times> bool" where
  "count_b_signals r =
     (let nm = (if truthy (rec_get r ''name'') \<and> looks_like_full_name (rec_get r ''name'') then True
                else if truthy (rec_get r B_FIRST) \<and> truthy (rec_get r B_LAST) then True
                else False);
          em = list_ex (\<lambda>k. truthy (rec_get r k) \<and> valid_email (rec_get r k)) B_EMAIL_KEYS;
          addr_parts = length (filter (\<lambda>k. truthy (rec_get r k)) B_ADDR_PARTS);
          has_addr_field = truthy (rec_get r ''address'');
          ad = (has_addr_field \<or> addr_parts \<ge> 2);
          device_present = list_ex (\<lambda>k. truthy (rec_get r k)) B_DEVICE_KEYS;
          ip_present = (truthy (rec_get r ''ip_address'')
                        \<and> rx_search RE_IPV4 (py_str (rec_get r ''ip_address'')));
          dv = (device_present \<or> ip_present);
          fl = \<lparr>f_name = nm, f_email = em, f_address = ad, f_device_or_ip = dv\<rparr>
      in (length (filter (\<lambda>v. v) [nm, em, ad, dv]), fl, addr_parts, has_addr_field))"


section \<open>A-detection\<close>

record found =
  a_phone :: bool
  a_aadhar :: bool
  a_passport :: bool
  a_upi :: bool

definition detect_a_in_value :: "string \<Rightarrow> pyval \<Rightarrow> found" where
  "detect_a_in_value key val =
     (let s = str_or_empty val
      in \<lparr>a_phone = (key \<notin> NUMERIC_ID_KEYS \<and> rx_search RE_TEN_DIGITS s),
          a_aadhar = (key \<notin> NUMERIC_ID_KEYS \<and> rx_search RE_AADHAR (rx_sub RE_WS (\<lambda>m. []) s)),
          a_passport = rx_search RE_PASSPORT s,
          a_upi = rx_search RE_UPI s\<rparr>)"

text \<open>\<open>any(found.values())\<close>\<close>
definition any_found :: "found \<Rightarrow> bool" where
  "any_found fd = list_ex (\<lambda>v. v) [a_phone fd, a_aadhar fd, a_passport fd, a_upi fd]"


section \<open>Redaction\<close>

definition redact_value :: "string \<Rightarrow> pyval \<Rightarrow> bool \<Rightarrow> nat \<Rightarrow> bool \<Rightarrow> pyval" where
  "redact_value key val do_b addr_parts has_addr_field =
     (if val = PNone then val
      else
        let before_s = py_str val;
            s0 = mask_upi_in (mask_passport_in (mask_aadhar_digits (mask_phone_digits before_s)))
        in if do_b then
             let s1 = (if key \<in> B_NAME_KEYS \<and> looks_like_full_name (PStr before_s)
                       then mask_name_full before_s else s0);
                 s2 = (if key \<in> {B_FIRST, B_LAST}
                       then py_prefix 1 s1 @ xs_of (length s1 - 1) else s1);
                 s3 = (if key \<in> set B_EMAIL_KEYS then mask_email_str s2 else s2);
                 s4 = (if key \<in> B_ADDRESS_KEYS then hard_redact s3
                       else if key \<in> set B_ADDR_PARTS
                         then (if has_addr_field \<or> addr_parts \<ge> 2 then hard_redact s3 else s3)
                       else s3);
                 s5 = (if key \<in> set B_DEVICE_KEYS then hard_redact s4 else s4);
                 s6 = (if key \<in> B_IP_KEYS then mask_ip_in s5 else s5)
             in PStr s6
           else PStr s0)"


section \<open>Record processing\<close>

definition a_hit :: "pyrec \<Rightarrow> bool" where
  "a_hit obj = list_ex (\<lambda>(k, v). any_found (detect_a_in_value k v)) obj"

definition email_alone :: "flags \<Rightarrow> bool" where
  "email_alone fl = (f_email fl \<and> \<not> (f_name fl \<or> f_address fl \<or> f_device_or_ip fl))"

definition process_record :: "pyrec \<Rightarrow> pyrec \<times> bool" where
  "process_record obj =
     (case count_b_signals obj of (b_count, fl, addr_parts, has_addr_field) \<Rightarrow>
        let do_b = (b_count \<ge> 2);
            is_pii = (a_hit obj \<or> do_b);
            is_pii' = (if email_alone fl then False else is_pii);
            do_b' = (if email_alone fl then False else do_b);
            red = map (\<lambda>(k, v). (k, redact_value k v do_b' addr_parts has_addr_field)) obj
        in (red, is_pii'))"


section \<open>Loading a row\<close>

text \<open>
  \<open>json.loads\<close> is a library function: it is a parameter \<open>loads\<close> of the model, which
  returns \<open>None\<close> where \<open>json.loads\<close> raises. What it returns is an object (a record) or
  some other JSON value.
\<close>

datatype loaded = Mapping pyrec | NotMapping pyval

text \<open>\<open>txt.replace('""', '"')\<close> and \<open>txt.strip('"')\<close>\<close>

fun unquote2 :: "string \<Rightarrow> string" where
  "unquote2 (x # y # xs) =
     (if x = CHR 0x22 \<and> y = CHR 0x22 then CHR 0x22 # unquote2 xs else x # unquote2 (y # xs))"
| "unquote2 xs = xs"

definition strip_quotes :: "string \<Rightarrow> string" where
  "strip_quotes s =
     rev (dropWhile (\<lambda>c. c = CHR 0x22) (rev (dropWhile (\<lambda>c. c = CHR 0x22) s)))"

definition safe_json_load :: "(string \<Rightarrow> loaded option) \<Rightarrow> string option \<Rightarrow> loaded" where
  "safe_json_load loads raw =
     (let txt = strip (case raw of None \<Rightarrow> [] | Some t \<Rightarrow> t)
      in case loads txt of
           Some v \<Rightarrow> v
         | None \<Rightarrow>
             (case loads (strip_quotes (unquote2 txt)) of
                Some v \<Rightarrow> v
              | None \<Rightarrow> Mapping []))"

text \<open>
  One row of \<open>main\<close>: \<open>process_record(safe_json_load(...))\<close>. \<open>process_record\<close> begins with
  \<open>obj.items()\<close>, which raises \<open>AttributeError\<close> on a value that is not a dict.
\<close>

datatype py_error = AttributeError

definition process_row :: "(string \<Rightarrow> loaded option) \<Rightarrow> string option \<Rightarrow> py_error + pyrec \<times> bool" where
  "process_row loads raw =
     (case safe_json_load loads raw of
        Mapping obj \<Rightarrow> Inr (process_record obj)
      | NotMapping v \<Rightarrow> Inl AttributeError)"



section \<open>Notions used in the proofs\<close>

text \<open>The length of the longest prefix of a text inside a character set.\<close>

definition run :: "citem list \<Rightarrow> string \<Rightarrow> nat" where
  "run cs a = length (takeWhile (in_cls cs) a)"

text \<open>Is the character before the current position a digit?\<close>

definition digit_before :: "string \<Rightarrow> bool" where
  "digit_before b = (case b of [] \<Rightarrow> False | x # _ \<Rightarrow> uni_digit x)"

text \<open>The replacement function of \<open>mask_phone_digits\<close>, named.\<close>

definition phone_repl :: "string list \<Rightarrow> string" where
  "phone_repl m = (let d = group m 1 in py_prefix 2 d @ xs_of 6 @ py_suffix 2 d)"

text \<open>The letter set \<^verbatim>\<open>[A-PR-WYa-pr-wy]\<close> of the passport pattern, written out.\<close>

definition passport_letter :: "char \<Rightarrow> bool" where
  "passport_letter c =
     (in_range CHR ''A'' CHR ''P'' c \<or> in_range CHR ''R'' CHR ''W'' c \<or> c = CHR ''Y''
      \<or> in_range CHR ''a'' CHR ''p'' c \<or> in_range CHR ''r'' CHR ''w'' c \<or> c = CHR ''y'')"

text \<open>Is the character before, or at, the current position a word character?\<close>

definition word_before :: "string \<Rightarrow> bool" where
  "word_before b = (case b of [] \<Rightarrow> False | x # _ \<Rightarrow> uni_word x)"

definition word_here :: "string \<Rightarrow> bool" where
  "word_here a = (case a of [] \<Rightarrow> False | x # _ \<Rightarrow> uni_word x)"

text \<open>The replacement function of \<open>mask_passport_in\<close>, named.\<close>

definition passport_repl :: "string list \<Rightarrow> string" where
  "passport_repl m = (let p = group m 1 in py_prefix 1 p @ xs_of 6 @ py_suffix 1 p)"

text \<open>The block "A-class always" of \<open>redact_value\<close>: the four masks, in its order.\<close>

definition a_masks :: "string \<Rightarrow> string" where
  "a_masks s = mask_upi_in (mask_passport_in (mask_aadhar_digits (mask_phone_digits s)))"

text \<open>The field names that combination redaction treats.\<close>

definition role_keys :: "string set" where
  "role_keys = B_NAME_KEYS \<union> {B_FIRST, B_LAST} \<union> set B_EMAIL_KEYS \<union> B_ADDRESS_KEYS
     \<union> set B_ADDR_PARTS \<union> set B_DEVICE_KEYS \<union> B_IP_KEYS"

text \<open>The two replacement functions of \<open>mask_aadhar_digits\<close>, named.\<close>

definition grouped_repl :: "string list \<Rightarrow> string" where
  "grouped_repl m = group m 1 @ group m 2 @ group m 3"

definition aadhar_repl :: "string list \<Rightarrow> string" where
  "aadhar_repl m = (let d = group m 1 in ''XXXX XXXX '' @ py_suffix 4 d)"


section \<open>Facts about the matcher\<close>


lemma run_simps [simp]:
  "run cs [] = 0"
  "run cs (x # xs) = (if in_cls cs x then Suc (run cs xs) else 0)"
  by (simp_all add: run_def)

lemma run_le_length: "run cs a \<le> length a"
  by (simp add: run_def length_takeWhile_le)

text \<open>
  A greedy repetition of a character set ends after \<open>k\<close> characters for every \<open>k\<close> from
  the longest possible down to \<open>lo\<close>, in that order.
\<close>

lemma rep_cls:
  "rep (rx_m (Cls cs)) lo hi (b, a, g) =
     map (\<lambda>k. (rev (take k a) @ b, drop k a, g)) (rev [lo ..< Suc (min hi (run cs a))])"
proof (induction hi arbitrary: lo b a)
  case 0
  show ?case by (cases lo) simp_all
next
  case (Suc n)
  show ?case
  proof (cases a)
    case Nil
    then show ?thesis by (cases lo) simp_all
  next
    case (Cons x xs)
    show ?thesis
    proof (cases "in_cls cs x")
      case False
      with Cons show ?thesis by (cases lo) simp_all
    next
      case True
      let ?M = "min n (run cs xs)"
      show ?thesis
      proof (cases lo)
        case 0
        have "[0 ..< Suc (Suc ?M)] = 0 # map Suc [0 ..< Suc ?M]"
          by (metis map_Suc_upt upt_conv_Cons zero_less_Suc)
        with 0 Cons True Suc.IH [of 0 "x # b" xs] show ?thesis
          by (simp add: rev_map comp_def del: upt_Suc)
      next
        case (Suc l)
        have "[Suc l ..< Suc (Suc ?M)] = map Suc [l ..< Suc ?M]"
          by (simp only: map_Suc_upt)
        with Suc Cons True Suc.IH [of l "x # b" xs] show ?thesis
          by (simp add: rev_map comp_def del: upt_Suc)
      qed
    qed
  qed
qed

lemma rx_m_Cls:
  "rx_m (Cls cs) (b, a, g) =
     (case a of [] \<Rightarrow> [] | x # xs \<Rightarrow> if in_cls cs x then [(x # b, xs, g)] else [])"
  by simp

lemma rx_m_Cat: "rx_m (Cat r1 r2) st = concat (map (rx_m r2) (rx_m r1 st))"
  by simp

lemma rx_m_Grp:
  "rx_m (Grp r) (b, a, g) =
     map (\<lambda>(b', a', g'). (b', a', g' @ [take (length a - length a') a])) (rx_m r (b, a, g))"
  by simp

lemma rx_m_NotBehind:
  "rx_m (NotBehind cs) (b, a, g) =
     (case b of [] \<Rightarrow> [(b, a, g)] | x # _ \<Rightarrow> if in_cls cs x then [] else [(b, a, g)])"
  by simp

lemma rx_m_NotAhead:
  "rx_m (NotAhead cs) (b, a, g) =
     (case a of [] \<Rightarrow> [(b, a, g)] | x # _ \<Rightarrow> if in_cls cs x then [] else [(b, a, g)])"
  by simp

lemma rx_m_WordB: "rx_m WordB (b, a, g) = (if at_boundary b a then [(b, a, g)] else [])"
  by simp

lemma rx_m_Rep_Cls:
  "rx_m (Rep lo (Some hi) (Cls cs)) (b, a, g) =
     map (\<lambda>k. (rev (take k a) @ b, drop k a, g)) (rev [lo ..< Suc (min hi (run cs a))])"
  using rep_cls [of cs lo hi b a g] by simp

lemma rx_m_Rep_Cls_unbounded:
  "rx_m (Rep lo None (Cls cs)) (b, a, g) =
     map (\<lambda>k. (rev (take k a) @ b, drop k a, g)) (rev [lo ..< Suc (run cs a)])"
  using rep_cls [of cs lo "length a" b a g] run_le_length [of cs a] by (simp add: min_absorb2)

lemma take_run_len: "n \<le> run cs a \<Longrightarrow> length a - (length a - n) = n"
  using run_le_length [of cs a] by simp

lemma rx_m_Grp_Rep_Cls:
  "rx_m (Grp (Rep lo (Some hi) (Cls cs))) (b, a, g) =
     map (\<lambda>k. (rev (take k a) @ b, drop k a, g @ [take k a]))
       (rev [lo ..< Suc (min hi (run cs a))])"
  using run_le_length [of cs a] by (simp only: rx_m_Grp rx_m_Rep_Cls) (auto simp: comp_def)

lemma rx_m_Grp_Rep_Cls_unbounded:
  "rx_m (Grp (Rep lo None (Cls cs))) (b, a, g) =
     map (\<lambda>k. (rev (take k a) @ b, drop k a, g @ [take k a])) (rev [lo ..< Suc (run cs a)])"
  using run_le_length [of cs a] by (simp only: rx_m_Grp rx_m_Rep_Cls_unbounded) (auto simp: comp_def)

lemmas rx_eval = rx_m_Cls rx_m_Cat rx_m_NotBehind rx_m_NotAhead rx_m_WordB
  rx_m_Rep_Cls rx_m_Rep_Cls_unbounded rx_m_Grp_Rep_Cls rx_m_Grp_Rep_Cls_unbounded

declare rx_m.simps [simp del]

lemma exact_upt: "rev [n ..< Suc (min n r)] = (if n \<le> r then [n] else [])"
  by (auto simp: min_def)

lemma run_drop: "n \<le> run cs a \<Longrightarrow> run cs (drop n a) = run cs a - n"
proof (induction a arbitrary: n)
  case Nil then show ?case by simp
next
  case (Cons x xs)
  then show ?case by (cases n) (auto split: if_splits)
qed

lemma run_exact:
  "run cs a = n \<longleftrightarrow> n \<le> run cs a \<and> (case drop n a of [] \<Rightarrow> True | x # _ \<Rightarrow> \<not> in_cls cs x)"
proof (cases "n \<le> run cs a")
  case True
  from run_drop [OF True] have "run cs (drop n a) = run cs a - n" .
  with True show ?thesis by (cases "drop n a") (auto split: if_splits)
next
  case False
  then show ?thesis by auto
qed

lemma in_cls_digit [simp]: "in_cls [CDigit] c = uni_digit c"
  by (simp add: in_cls_def)


lemma match_at_single:
  assumes "rx_m r (b, a, []) = (if c then [(rev (take n a) @ b, drop n a, g)] else [])"
    and "c \<Longrightarrow> n \<le> length a"
  shows "match_at r b a = (if c then Some (take n a # g, rev (take n a) @ b, drop n a) else None)"
  using assms by (auto simp: match_at_def)


section \<open>Substitution\<close>

declare rx_sub_from.simps [simp del]
declare rx_split_from.simps [simp del]

lemma rx_sub_from_None:
  "match_at r b a = None \<Longrightarrow>
     rx_sub_from r f b a = (case a of [] \<Rightarrow> [] | x # xs \<Rightarrow> x # rx_sub_from r f (x # b) xs)"
  by (subst rx_sub_from.simps) simp

lemma rx_sub_from_Some:
  "match_at r b a = Some (m, b', a') \<Longrightarrow> length a' < length a \<Longrightarrow>
     rx_sub_from r f b a = f m @ rx_sub_from r f b' a'"
  by (subst rx_sub_from.simps) simp

text \<open>Where the pattern matches nowhere, substitution returns the text as it is.\<close>

lemma rx_sub_from_no_match:
  "\<not> rx_search_from r b a \<Longrightarrow> rx_sub_from r f b a = a"
proof (induction a arbitrary: b)
  case Nil
  then have "match_at r b [] = None" by (cases "match_at r b []") auto
  then show ?case by (simp add: rx_sub_from_None)
next
  case (Cons x xs)
  then have "match_at r b (x # xs) = None" and "\<not> rx_search_from r (x # b) xs"
    by (cases "match_at r b (x # xs)"; auto)+
  with Cons.IH show ?case by (simp add: rx_sub_from_None)
qed

lemma rx_sub_no_match: "\<not> rx_search r s \<Longrightarrow> rx_sub r f s = s"
  by (simp add: rx_search_def rx_sub_def rx_sub_from_no_match)


section \<open>The phone-like pattern\<close>

lemma rx_m_TEN:
  "rx_m RE_TEN_DIGITS (b, a, []) =
     (if \<not> digit_before b \<and> run [CDigit] a = 10
      then [(rev (take 10 a) @ b, drop 10 a, [take 10 a])] else [])"
  unfolding RE_TEN_DIGITS_def
  by (auto simp: rx_eval exact_upt digit_before_def run_exact [of "[CDigit]" a 10] split: list.splits)

lemma match_at_TEN:
  "match_at RE_TEN_DIGITS b a =
     (if \<not> digit_before b \<and> run [CDigit] a = 10
      then Some ([take 10 a, take 10 a], rev (take 10 a) @ b, drop 10 a) else None)"
  using run_le_length [of "[CDigit]" a] by (intro match_at_single rx_m_TEN) auto



lemma mask_phone_digits_alt: "mask_phone_digits s = rx_sub_from RE_TEN_DIGITS phone_repl [] s"
  by (simp only: mask_phone_digits_def rx_sub_def phone_repl_def [abs_def])

lemma not_digit_X [simp]: "\<not> uni_digit CHR ''X''"
  by (simp add: uni_digit_def in_range_def code_def)

lemma run_SucE:
  assumes "run cs a = Suc n"
  obtains x xs where "a = x # xs" and "in_cls cs x" and "run cs xs = n"
  using assms by (cases a) (auto split: if_splits)

lemma run_0_iff: "run cs a = 0 \<longleftrightarrow> (case a of [] \<Rightarrow> True | x # _ \<Rightarrow> \<not> in_cls cs x)"
  by (cases a) auto

lemma run_ten_shape:
  assumes "run [CDigit] a = 10"
  obtains d0 d1 d2 d3 d4 d5 d6 d7 d8 d9 rest where
    "a = d0 # d1 # d2 # d3 # d4 # d5 # d6 # d7 # d8 # d9 # rest"
    "uni_digit d0" "uni_digit d1" "uni_digit d2" "uni_digit d3" "uni_digit d4"
    "uni_digit d5" "uni_digit d6" "uni_digit d7" "uni_digit d8" "uni_digit d9"
    "run [CDigit] rest = 0"
proof -
  from assms have "run [CDigit] a = Suc (Suc (Suc (Suc (Suc (Suc (Suc (Suc (Suc (Suc 0)))))))))"
    by simp
  then show ?thesis
    by (elim run_SucE) (auto intro: that)
qed

text \<open>Inside a digit run nothing matches, so the run is copied.\<close>

lemma phone_sub_after_digit:
  "digit_before b \<Longrightarrow> run [CDigit] (rx_sub_from RE_TEN_DIGITS f b a) = run [CDigit] a"
proof (induction a arbitrary: b)
  case Nil
  then show ?case by (simp add: rx_sub_from_None match_at_TEN)
next
  case (Cons x xs)
  then show ?case by (simp add: rx_sub_from_None match_at_TEN digit_before_def)
qed

lemma phone_sub_run:
  "run [CDigit] a \<noteq> 10 \<Longrightarrow> run [CDigit] (rx_sub_from RE_TEN_DIGITS f b a) = run [CDigit] a"
proof (cases a)
  case Nil
  then show ?thesis by (simp add: rx_sub_from_None match_at_TEN)
next
  case (Cons x xs)
  assume "run [CDigit] a \<noteq> 10"
  with Cons phone_sub_after_digit [of "x # b" f xs] show ?thesis
    by (simp add: rx_sub_from_None match_at_TEN digit_before_def)
qed

lemma phone_sub_match:
  assumes "\<not> digit_before b"
    and "a = d0 # d1 # d2 # d3 # d4 # d5 # d6 # d7 # d8 # d9 # rest"
    and "run [CDigit] a = 10"
  shows "rx_sub_from RE_TEN_DIGITS phone_repl b a =
           d0 # d1 # CHR ''X'' # CHR ''X'' # CHR ''X'' # CHR ''X'' # CHR ''X'' # CHR ''X'' # d8 # d9 #
           rx_sub_from RE_TEN_DIGITS phone_repl (d9 # d8 # d7 # d6 # d5 # d4 # d3 # d2 # d1 # d0 # b) rest"
proof -
  have m: "match_at RE_TEN_DIGITS b a =
      Some ([take 10 a, take 10 a], rev (take 10 a) @ b, drop 10 a)"
    using assms by (simp only: match_at_TEN) simp
  have l: "length (drop 10 a) < length a" using assms(2) by simp
  show ?thesis
    by (simp only: rx_sub_from_Some [OF m l])
       (simp add: assms(2) phone_repl_def group_def py_prefix_def py_suffix_def xs_of_def
          eval_nat_numeral)
qed

lemma phone_no_survivor_from:
  "digit_before b' = digit_before b \<Longrightarrow>
     \<not> rx_search_from RE_TEN_DIGITS b' (rx_sub_from RE_TEN_DIGITS phone_repl b a)"
proof (induction a arbitrary: b b' rule: length_induct)
  case (1 a)
  show ?case
  proof (cases "\<not> digit_before b \<and> run [CDigit] a = 10")
    case True
    then have nb: "\<not> digit_before b" and r: "run [CDigit] a = 10" by simp_all
    from r obtain d0 d1 d2 d3 d4 d5 d6 d7 d8 d9 rest where
      a: "a = d0 # d1 # d2 # d3 # d4 # d5 # d6 # d7 # d8 # d9 # rest"
      and d: "uni_digit d0" "uni_digit d1" "uni_digit d8" "uni_digit d9"
      and rest: "run [CDigit] rest = 0"
      by (rule run_ten_shape)
    let ?b1 = "d9 # d8 # d7 # d6 # d5 # d4 # d3 # d2 # d1 # d0 # b"
    let ?out = "rx_sub_from RE_TEN_DIGITS phone_repl ?b1 rest"
    have ro: "run [CDigit] ?out = 0"
      using phone_sub_after_digit [of ?b1 phone_repl rest] d rest by (simp add: digit_before_def)
    have "length rest < length a" using a by simp
    with "1.IH" have ih: "\<And>c c'. digit_before c' = digit_before c \<Longrightarrow>
        \<not> rx_search_from RE_TEN_DIGITS c' (rx_sub_from RE_TEN_DIGITS phone_repl c rest)"
      by blast
    have ih': "\<not> rx_search_from RE_TEN_DIGITS
        (d9 # d8 # CHR ''X'' # CHR ''X'' # CHR ''X'' # CHR ''X'' # CHR ''X'' # CHR ''X'' # d1 # d0 # b') ?out"
      by (rule ih) (simp add: digit_before_def d)
    show ?thesis
      using ih' ro d
      by (simp add: phone_sub_match [OF nb a r] match_at_TEN digit_before_def)
  next
    case False
    then have m: "match_at RE_TEN_DIGITS b a = None" by (simp add: match_at_TEN)
    have ro: "run [CDigit] (rx_sub_from RE_TEN_DIGITS phone_repl b a) = run [CDigit] a"
    proof (cases "run [CDigit] a = 10")
      case True
      with False have "digit_before b" by simp
      then show ?thesis by (rule phone_sub_after_digit)
    next
      case False
      then show ?thesis by (rule phone_sub_run)
    qed
    have nm: "match_at RE_TEN_DIGITS b' (rx_sub_from RE_TEN_DIGITS phone_repl b a) = None"
      using False "1.prems" ro by (simp add: match_at_TEN)
    show ?thesis
    proof (cases a)
      case Nil
      then show ?thesis using m by (simp add: rx_sub_from_None match_at_TEN)
    next
      case (Cons x xs)
      then have e: "rx_sub_from RE_TEN_DIGITS phone_repl b a =
          x # rx_sub_from RE_TEN_DIGITS phone_repl (x # b) xs"
        using m by (simp add: rx_sub_from_None)
      have "length xs < length a" using Cons by simp
      with "1.IH" have "\<not> rx_search_from RE_TEN_DIGITS (x # b')
          (rx_sub_from RE_TEN_DIGITS phone_repl (x # b) xs)"
        by (simp add: digit_before_def)
      with nm e show ?thesis by simp
    qed
  qed
qed

lemma phone_no_survivor: "\<not> rx_search RE_TEN_DIGITS (mask_phone_digits s)"
  by (simp add: rx_search_def mask_phone_digits_alt phone_no_survivor_from)

lemma mask_phone_idem: "mask_phone_digits (mask_phone_digits s) = mask_phone_digits s"
  by (simp add: mask_phone_digits_def [of "mask_phone_digits s"] rx_sub_no_match phone_no_survivor)


section \<open>The passport-like pattern\<close>


lemma at_boundary_alt: "at_boundary b a = (word_before b \<noteq> word_here a)"
  by (simp add: at_boundary_def word_before_def word_here_def)

lemma in_cls_passport_letter [simp]:
  "in_cls [Rg CHR ''A'' CHR ''P'', Rg CHR ''R'' CHR ''W'', Ch CHR ''Y'',
           Rg CHR ''a'' CHR ''p'', Rg CHR ''r'' CHR ''w'', Ch CHR ''y''] c = passport_letter c"
  by (simp add: in_cls_def passport_letter_def)

lemma in_cls_ascii_digit [simp]: "in_cls [Rg CHR ''0'' CHR ''9''] c = uni_digit c"
  by (simp add: in_cls_def uni_digit_def)

lemma run_ascii_digit [simp]: "run [Rg CHR ''0'' CHR ''9''] a = run [CDigit] a"
  by (induction a) simp_all

lemma passport_letter_word:
  assumes "passport_letter c"
  shows "uni_word c"
proof -
  from assms have "in_range CHR ''A'' CHR ''Z'' c \<or> in_range CHR ''a'' CHR ''z'' c"
    unfolding passport_letter_def in_range_def code_def by (elim disjE) simp_all
  then show ?thesis unfolding uni_word_def by blast
qed

lemma digit_word: "uni_digit c \<Longrightarrow> uni_word c"
  by (simp add: uni_digit_def uni_word_def)

lemma run_geE:
  assumes "Suc n \<le> run cs a"
  obtains x xs where "a = x # xs" and "in_cls cs x" and "n \<le> run cs xs"
  using assms by (cases a) (auto split: if_splits)

lemma run_seven_shape:
  assumes "7 \<le> run [CDigit] a"
  obtains d1 d2 d3 d4 d5 d6 d7 rest where
    "a = d1 # d2 # d3 # d4 # d5 # d6 # d7 # rest"
    "uni_digit d1" "uni_digit d2" "uni_digit d3" "uni_digit d4"
    "uni_digit d5" "uni_digit d6" "uni_digit d7"
proof -
  from assms have "Suc (Suc (Suc (Suc (Suc (Suc (Suc 0)))))) \<le> run [CDigit] a"
    by simp
  then show ?thesis
    by (elim run_geE) (auto intro: that)
qed



lemma rx_m_PASSPORT_Nil: "rx_m RE_PASSPORT (b, [], []) = []"
  unfolding RE_PASSPORT_def by (simp add: rx_eval rx_m_Grp)

lemma rx_m_PASSPORT_Cons:
  "rx_m RE_PASSPORT (b, x # xs, []) =
     (if \<not> word_before b \<and> passport_letter x \<and> run [CDigit] xs = 7 \<and> \<not> word_here (drop 7 xs)
      then [(rev (take 7 xs) @ x # b, drop 7 xs, [x # take 7 xs])] else [])"
proof (cases "passport_letter x \<and> 7 \<le> run [CDigit] xs")
  case False
  then show ?thesis
    unfolding RE_PASSPORT_def
    by (auto simp: rx_eval rx_m_Grp exact_upt)
next
  case True
  then have pl: "passport_letter x" and r: "7 \<le> run [CDigit] xs" by simp_all
  from r obtain d1 d2 d3 d4 d5 d6 d7 rest where
    xs: "xs = d1 # d2 # d3 # d4 # d5 # d6 # d7 # rest"
    and d: "uni_digit d1" "uni_digit d2" "uni_digit d3" "uni_digit d4"
      "uni_digit d5" "uni_digit d6" "uni_digit d7"
    by (rule run_seven_shape)
  have rr: "run [CDigit] xs = 7 \<longleftrightarrow> \<not> (case rest of [] \<Rightarrow> False | y # _ \<Rightarrow> uni_digit y)"
    using d by (simp add: xs run_0_iff split: list.splits)
  have wd7: "uni_word d7" using d by (simp add: digit_word)
  have wx: "uni_word x" using pl by (rule passport_letter_word)
  have dw: "\<And>y ys. rest = y # ys \<Longrightarrow> uni_digit y \<Longrightarrow> uni_word y" by (simp add: digit_word)
  show ?thesis
    unfolding RE_PASSPORT_def
    using pl d wd7 wx dw
    by (auto simp: rx_eval rx_m_Grp exact_upt xs at_boundary_alt word_here_def word_before_def
          split: list.splits)
qed


lemma match_at_PASSPORT_Nil: "match_at RE_PASSPORT b [] = None"
  by (simp add: match_at_def rx_m_PASSPORT_Nil)

lemma match_at_PASSPORT_Cons:
  "match_at RE_PASSPORT b (x # xs) =
     (if \<not> word_before b \<and> passport_letter x \<and> run [CDigit] xs = 7 \<and> \<not> word_here (drop 7 xs)
      then Some ([x # take 7 xs, x # take 7 xs], rev (take 7 xs) @ x # b, drop 7 xs) else None)"
  using run_le_length [of "[CDigit]" xs]
  by (auto simp: match_at_def rx_m_PASSPORT_Cons)

lemma match_at_PASSPORT_length: "match_at RE_PASSPORT b a \<noteq> None \<Longrightarrow> 8 \<le> length a"
  using run_le_length [of "[CDigit]" "tl a"]
  by (cases a) (auto simp: match_at_PASSPORT_Nil match_at_PASSPORT_Cons split: if_splits)

lemma no_search_short:
  assumes "\<And>b a. match_at r b a \<noteq> None \<Longrightarrow> n \<le> length a"
  shows "length a < n \<Longrightarrow> \<not> rx_search_from r b a"
proof (induction a arbitrary: b)
  case Nil
  then show ?case using assms [of b "[]"] by auto
next
  case (Cons x xs)
  then show ?case using assms [of b "x # xs"] by auto
qed

lemma passport_no_search_short: "length a < 8 \<Longrightarrow> \<not> rx_search_from RE_PASSPORT b a"
  using no_search_short [of RE_PASSPORT 8 a b] match_at_PASSPORT_length by blast

lemma run_all_digits: "list_all uni_digit ds \<Longrightarrow> run [CDigit] (ds @ rest) = length ds + run [CDigit] rest"
  by (induction ds) simp_all

lemma run_all_iff: "run [CDigit] ds = length ds \<longleftrightarrow> list_all uni_digit ds"
proof (induction ds)
  case Nil show ?case by simp
next
  case (Cons d ds)
  then show ?case using run_le_length [of "[CDigit]" ds] by auto
qed

lemma mask_passport_in_alt: "mask_passport_in s = rx_sub_from RE_PASSPORT passport_repl [] s"
  by (simp only: mask_passport_in_def rx_sub_def passport_repl_def [abs_def])

lemma length_sevenE:
  assumes "length ds = 7"
  obtains d1 d2 d3 d4 d5 d6 d7 where "ds = [d1, d2, d3, d4, d5, d6, d7]"
proof -
  from assms have "length ds = Suc (Suc (Suc (Suc (Suc (Suc (Suc 0))))))" by simp
  then show ?thesis by (auto simp: length_Suc_conv intro: that)
qed

lemma mask_passport_token:
  assumes "length ds = 7" 
  shows "mask_passport_in (c # ds) =
     (if passport_letter c \<and> list_all uni_digit ds then c # ''XXXXXX'' @ [last ds] else c # ds)"
proof -
  from assms obtain d1 d2 d3 d4 d5 d6 d7 where ds: "ds = [d1, d2, d3, d4, d5, d6, d7]"
    by (rule length_sevenE)
  have r: "run [CDigit] ds = 7 \<longleftrightarrow> list_all uni_digit ds"
    using run_all_iff [of ds] assms by simp
  show ?thesis
  proof (cases "passport_letter c \<and> list_all uni_digit ds")
    case True
    with r have m: "match_at RE_PASSPORT [] (c # ds) =
        Some ([c # ds, c # ds], rev ds @ [c], [])"
      using assms by (simp add: match_at_PASSPORT_Cons word_before_def word_here_def)
    have "rx_sub_from RE_PASSPORT passport_repl [] (c # ds) =
        passport_repl [c # ds, c # ds] @ rx_sub_from RE_PASSPORT passport_repl (rev ds @ [c]) []"
      by (rule rx_sub_from_Some [OF m]) simp
    then show ?thesis
      using True
      by (simp add: mask_passport_in_alt rx_sub_from_None match_at_PASSPORT_Nil passport_repl_def
          group_def py_prefix_def py_suffix_def xs_of_def ds eval_nat_numeral)
  next
    case False
    with r have m: "match_at RE_PASSPORT [] (c # ds) = None"
      by (auto simp: match_at_PASSPORT_Cons)
    have "\<not> rx_search_from RE_PASSPORT [c] ds"
      by (rule passport_no_search_short) (simp add: assms)
    with m have "\<not> rx_search RE_PASSPORT (c # ds)" by (simp add: rx_search_def)
    then have "mask_passport_in (c # ds) = c # ds"
      by (simp add: mask_passport_in_def rx_sub_no_match)
    with False show ?thesis by auto
  qed
qed


lemma not_passport_letter_X [simp]: "\<not> passport_letter CHR ''X''"
  by (simp add: passport_letter_def in_range_def code_def)

lemma word_X [simp]: "uni_word CHR ''X''"
  by (simp add: uni_word_def in_range_def code_def)

lemma digit_not_passport_letter: "uni_digit c \<Longrightarrow> \<not> passport_letter c"
  unfolding passport_letter_def uni_digit_def in_range_def code_def
  by (elim conjE) auto

lemma passport_letter_not_digit: "passport_letter c \<Longrightarrow> \<not> uni_digit c"
  using digit_not_passport_letter by blast

lemma match_at_PASSPORT_digit:
  "uni_digit x \<Longrightarrow> match_at RE_PASSPORT b (x # xs) = None"
  by (simp add: match_at_PASSPORT_Cons digit_not_passport_letter)

text \<open>Matches begin at a letter and the replacement keeps it: digit runs and the kind of
  the first character are those of the input.\<close>

lemma passport_sub_match:
  assumes "match_at RE_PASSPORT b (c # xs) \<noteq> None"
    and "xs = d1 # d2 # d3 # d4 # d5 # d6 # d7 # rest"
  shows "rx_sub_from RE_PASSPORT passport_repl b (c # xs) =
           c # CHR ''X'' # CHR ''X'' # CHR ''X'' # CHR ''X'' # CHR ''X'' # CHR ''X'' # d7 #
           rx_sub_from RE_PASSPORT passport_repl (d7 # d6 # d5 # d4 # d3 # d2 # d1 # c # b) rest"
proof -
  from assms have m: "match_at RE_PASSPORT b (c # xs) =
      Some ([c # take 7 xs, c # take 7 xs], rev (take 7 xs) @ c # b, drop 7 xs)"
    by (simp add: match_at_PASSPORT_Cons split: if_splits)
  have l: "length (drop 7 xs) < length (c # xs)" by simp
  show ?thesis
    by (simp only: rx_sub_from_Some [OF m l])
       (simp add: assms(2) passport_repl_def group_def py_prefix_def py_suffix_def xs_of_def
          eval_nat_numeral)
qed

lemma passport_sub_run:
  "run [CDigit] (rx_sub_from RE_PASSPORT passport_repl b a) = run [CDigit] a"
proof (induction a arbitrary: b)
  case Nil
  then show ?case by (simp add: rx_sub_from_None match_at_PASSPORT_Nil)
next
  case (Cons x xs)
  show ?case
  proof (cases "match_at RE_PASSPORT b (x # xs)")
    case None
    then show ?thesis using Cons by (simp add: rx_sub_from_None)
  next
    case (Some m)
    then have ne: "match_at RE_PASSPORT b (x # xs) \<noteq> None" by simp
    then have pl: "passport_letter x" and r: "7 \<le> run [CDigit] xs"
      by (simp_all add: match_at_PASSPORT_Cons split: if_splits)
    from r obtain d1 d2 d3 d4 d5 d6 d7 rest where
      xs: "xs = d1 # d2 # d3 # d4 # d5 # d6 # d7 # rest"
      by (rule run_seven_shape)
    show ?thesis
      using pl by (simp add: passport_sub_match [OF ne xs] passport_letter_not_digit)
  qed
qed

lemma passport_sub_word_here:
  "word_here (rx_sub_from RE_PASSPORT passport_repl b a) = word_here a"
proof (cases a)
  case Nil
  then show ?thesis by (simp add: rx_sub_from_None match_at_PASSPORT_Nil)
next
  case (Cons x xs)
  show ?thesis
  proof (cases "match_at RE_PASSPORT b (x # xs)")
    case None
    then show ?thesis using Cons by (simp add: rx_sub_from_None word_here_def)
  next
    case (Some m)
    then have ne: "match_at RE_PASSPORT b (x # xs) \<noteq> None" by simp
    then have r: "7 \<le> run [CDigit] xs"
      by (simp_all add: match_at_PASSPORT_Cons split: if_splits)
    from r obtain d1 d2 d3 d4 d5 d6 d7 rest where
      xs: "xs = d1 # d2 # d3 # d4 # d5 # d6 # d7 # rest"
      by (rule run_seven_shape)
    show ?thesis
      using Cons by (simp add: passport_sub_match [OF ne xs] word_here_def)
  qed
qed


lemma passport_sub_drop_digits:
  "k \<le> run [CDigit] a \<Longrightarrow>
     drop k (rx_sub_from RE_PASSPORT passport_repl b a) =
       rx_sub_from RE_PASSPORT passport_repl (rev (take k a) @ b) (drop k a)"
proof (induction a arbitrary: b k)
  case Nil
  then show ?case by (simp add: rx_sub_from_None match_at_PASSPORT_Nil)
next
  case (Cons x xs)
  show ?case
  proof (cases k)
    case 0
    then show ?thesis by simp
  next
    case (Suc j)
    with Cons.prems have d: "uni_digit x" and j: "j \<le> run [CDigit] xs"
      by (auto split: if_splits)
    from d have "rx_sub_from RE_PASSPORT passport_repl b (x # xs) =
        x # rx_sub_from RE_PASSPORT passport_repl (x # b) xs"
      by (simp add: rx_sub_from_None match_at_PASSPORT_digit)
    with Cons.IH [OF j, of "x # b"] Suc show ?thesis by simp
  qed
qed

lemma passport_no_survivor_from:
  "word_before b' = word_before b \<Longrightarrow>
     \<not> rx_search_from RE_PASSPORT b' (rx_sub_from RE_PASSPORT passport_repl b a)"
proof (induction a arbitrary: b b' rule: length_induct)
  case (1 a)
  show ?case
  proof (cases a)
    case Nil
    then show ?thesis by (simp add: rx_sub_from_None match_at_PASSPORT_Nil)
  next
    case (Cons x xs)
    show ?thesis
    proof (cases "match_at RE_PASSPORT b (x # xs)")
      case None
      let ?out = "rx_sub_from RE_PASSPORT passport_repl (x # b) xs"
      have e: "rx_sub_from RE_PASSPORT passport_repl b a = x # ?out"
        using None Cons by (simp add: rx_sub_from_None)
      have "length xs < length a" using Cons by simp
      with "1.IH" have ih: "\<not> rx_search_from RE_PASSPORT (x # b') ?out"
        by (simp add: word_before_def)
      have ro: "run [CDigit] ?out = run [CDigit] xs" by (rule passport_sub_run)
      have wh: "word_here (drop 7 ?out) = word_here (drop 7 xs)" if "run [CDigit] xs = 7"
      proof -
        from that have "7 \<le> run [CDigit] xs" by simp
        then show ?thesis
          by (simp only: passport_sub_drop_digits passport_sub_word_here)
      qed
      have "match_at RE_PASSPORT b' (x # ?out) = None"
        using None "1.prems" ro wh by (auto simp: match_at_PASSPORT_Cons split: if_splits)
      with ih e show ?thesis by simp
    next
      case (Some m)
      then have ne: "match_at RE_PASSPORT b (x # xs) \<noteq> None" by simp
      then have r: "7 \<le> run [CDigit] xs"
        by (simp_all add: match_at_PASSPORT_Cons split: if_splits)
      from r obtain d1 d2 d3 d4 d5 d6 d7 rest where
        xs: "xs = d1 # d2 # d3 # d4 # d5 # d6 # d7 # rest" and d7: "uni_digit d7"
        by (rule run_seven_shape)
      let ?out = "rx_sub_from RE_PASSPORT passport_repl (d7 # d6 # d5 # d4 # d3 # d2 # d1 # x # b) rest"
      have "length rest < length a" using Cons xs by simp
      with "1.IH" have ih: "\<not> rx_search_from RE_PASSPORT
          (d7 # CHR ''X'' # CHR ''X'' # CHR ''X'' # CHR ''X'' # CHR ''X'' # CHR ''X'' # x # b') ?out"
        by (simp add: word_before_def)
      show ?thesis
        using ih d7 Cons
        by (simp add: passport_sub_match [OF ne xs] match_at_PASSPORT_Cons
              digit_not_passport_letter)
    qed
  qed
qed

lemma passport_no_survivor: "\<not> rx_search RE_PASSPORT (mask_passport_in s)"
  by (simp add: rx_search_def mask_passport_in_alt passport_no_survivor_from)

lemma mask_passport_idem: "mask_passport_in (mask_passport_in s) = mask_passport_in s"
  by (simp add: mask_passport_in_def [of "mask_passport_in s"] rx_sub_no_match passport_no_survivor)


section \<open>The national-ID pattern\<close>


lemma mask_aadhar_digits_alt:
  "mask_aadhar_digits s =
     rx_sub_from RE_AADHAR aadhar_repl [] (rx_sub_from RE_GROUPED grouped_repl [] s)"
  by (simp only: mask_aadhar_digits_def rx_sub_def aadhar_repl_def [abs_def]
        grouped_repl_def [abs_def] Let_def)

lemma rx_m_AADHAR:
  "rx_m RE_AADHAR (b, a, []) =
     (if \<not> digit_before b \<and> run [CDigit] a = 12
      then [(rev (take 12 a) @ b, drop 12 a, [take 12 a])] else [])"
  unfolding RE_AADHAR_def
  by (auto simp: rx_eval exact_upt digit_before_def run_exact [of "[CDigit]" a 12] split: list.splits)

lemma match_at_AADHAR:
  "match_at RE_AADHAR b a =
     (if \<not> digit_before b \<and> run [CDigit] a = 12
      then Some ([take 12 a, take 12 a], rev (take 12 a) @ b, drop 12 a) else None)"
  using run_le_length [of "[CDigit]" a] by (intro match_at_single rx_m_AADHAR) auto

lemma not_digit_space [simp]: "\<not> uni_digit CHR '' ''"
  by (simp add: uni_digit_def in_range_def code_def)

lemma run_twelve_shape:
  assumes "run [CDigit] a = 12"
  obtains d0 d1 d2 d3 d4 d5 d6 d7 d8 d9 d10 d11 rest where
    "a = d0 # d1 # d2 # d3 # d4 # d5 # d6 # d7 # d8 # d9 # d10 # d11 # rest"
    "uni_digit d8" "uni_digit d9" "uni_digit d10" "uni_digit d11"
    "run [CDigit] rest = 0"
proof -
  from assms have
    "run [CDigit] a = Suc (Suc (Suc (Suc (Suc (Suc (Suc (Suc (Suc (Suc (Suc (Suc 0)))))))))))"
    by simp
  then show ?thesis
    by (elim run_SucE) (auto intro: that)
qed

lemma aadhar_sub_after_digit:
  "digit_before b \<Longrightarrow> run [CDigit] (rx_sub_from RE_AADHAR f b a) = run [CDigit] a"
proof (induction a arbitrary: b)
  case Nil
  then show ?case by (simp add: rx_sub_from_None match_at_AADHAR)
next
  case (Cons x xs)
  then show ?case by (simp add: rx_sub_from_None match_at_AADHAR digit_before_def)
qed

lemma aadhar_sub_run:
  "run [CDigit] a \<noteq> 12 \<Longrightarrow> run [CDigit] (rx_sub_from RE_AADHAR f b a) = run [CDigit] a"
proof (cases a)
  case Nil
  then show ?thesis by (simp add: rx_sub_from_None match_at_AADHAR)
next
  case (Cons x xs)
  assume "run [CDigit] a \<noteq> 12"
  with Cons aadhar_sub_after_digit [of "x # b" f xs] show ?thesis
    by (simp add: rx_sub_from_None match_at_AADHAR digit_before_def)
qed

lemma aadhar_sub_match:
  assumes "\<not> digit_before b"
    and "a = d0 # d1 # d2 # d3 # d4 # d5 # d6 # d7 # d8 # d9 # d10 # d11 # rest"
    and "run [CDigit] a = 12"
  shows "rx_sub_from RE_AADHAR aadhar_repl b a =
           ''XXXX XXXX '' @ d8 # d9 # d10 # d11 #
           rx_sub_from RE_AADHAR aadhar_repl
             (d11 # d10 # d9 # d8 # d7 # d6 # d5 # d4 # d3 # d2 # d1 # d0 # b) rest"
proof -
  have m: "match_at RE_AADHAR b a =
      Some ([take 12 a, take 12 a], rev (take 12 a) @ b, drop 12 a)"
    using assms by (simp only: match_at_AADHAR) simp
  have l: "length (drop 12 a) < length a" using assms(2) by simp
  show ?thesis
    by (simp only: rx_sub_from_Some [OF m l])
       (simp add: assms(2) aadhar_repl_def group_def py_suffix_def eval_nat_numeral)
qed

lemma aadhar_no_survivor_from:
  "digit_before b' = digit_before b \<Longrightarrow>
     \<not> rx_search_from RE_AADHAR b' (rx_sub_from RE_AADHAR aadhar_repl b a)"
proof (induction a arbitrary: b b' rule: length_induct)
  case (1 a)
  show ?case
  proof (cases "\<not> digit_before b \<and> run [CDigit] a = 12")
    case True
    then have nb: "\<not> digit_before b" and r: "run [CDigit] a = 12" by simp_all
    from r obtain d0 d1 d2 d3 d4 d5 d6 d7 d8 d9 d10 d11 rest where
      a: "a = d0 # d1 # d2 # d3 # d4 # d5 # d6 # d7 # d8 # d9 # d10 # d11 # rest"
      and d: "uni_digit d8" "uni_digit d9" "uni_digit d10" "uni_digit d11"
      and rest: "run [CDigit] rest = 0"
      by (rule run_twelve_shape)
    let ?b1 = "d11 # d10 # d9 # d8 # d7 # d6 # d5 # d4 # d3 # d2 # d1 # d0 # b"
    let ?out = "rx_sub_from RE_AADHAR aadhar_repl ?b1 rest"
    have ro: "run [CDigit] ?out = 0"
      using aadhar_sub_after_digit [of ?b1 aadhar_repl rest] d rest by (simp add: digit_before_def)
    have "length rest < length a" using a by simp
    with "1.IH" have ih: "\<And>c c'. digit_before c' = digit_before c \<Longrightarrow>
        \<not> rx_search_from RE_AADHAR c' (rx_sub_from RE_AADHAR aadhar_repl c rest)"
      by blast
    have ih': "\<not> rx_search_from RE_AADHAR
        (d11 # d10 # d9 # d8 # rev ''XXXX XXXX '' @ b') ?out"
      by (rule ih) (simp add: digit_before_def d)
    show ?thesis
      using ih' ro d
      by (simp add: aadhar_sub_match [OF nb a r] match_at_AADHAR digit_before_def)
  next
    case False
    then have m: "match_at RE_AADHAR b a = None" by (simp add: match_at_AADHAR)
    have ro: "run [CDigit] (rx_sub_from RE_AADHAR aadhar_repl b a) = run [CDigit] a"
    proof (cases "run [CDigit] a = 12")
      case True
      with False have "digit_before b" by simp
      then show ?thesis by (rule aadhar_sub_after_digit)
    next
      case False
      then show ?thesis by (rule aadhar_sub_run)
    qed
    have nm: "match_at RE_AADHAR b' (rx_sub_from RE_AADHAR aadhar_repl b a) = None"
      using False "1.prems" ro by (simp add: match_at_AADHAR)
    show ?thesis
    proof (cases a)
      case Nil
      then show ?thesis using m by (simp add: rx_sub_from_None match_at_AADHAR)
    next
      case (Cons x xs)
      then have e: "rx_sub_from RE_AADHAR aadhar_repl b a =
          x # rx_sub_from RE_AADHAR aadhar_repl (x # b) xs"
        using m by (simp add: rx_sub_from_None)
      have "length xs < length a" using Cons by simp
      with "1.IH" have "\<not> rx_search_from RE_AADHAR (x # b')
          (rx_sub_from RE_AADHAR aadhar_repl (x # b) xs)"
        by (simp add: digit_before_def)
      with nm e show ?thesis by simp
    qed
  qed
qed

lemma aadhar_no_survivor: "\<not> rx_search RE_AADHAR (mask_aadhar_digits s)"
  by (simp add: rx_search_def mask_aadhar_digits_alt aadhar_no_survivor_from)


section \<open>A text without whitespace\<close>

lemma in_cls_space [simp]: "in_cls [CSpace] c = uni_space c"
  by (simp add: in_cls_def)





section \<open>The shape of \<open>redact_value\<close> and \<open>process_record\<close>\<close>


lemma redact_value_None [simp]: "redact_value key PNone do_b ap haf = PNone"
  by (simp add: redact_value_def)

lemma redact_value_no_b:
  "val \<noteq> PNone \<Longrightarrow> redact_value key val False ap haf = PStr (a_masks (py_str val))"
  by (simp add: redact_value_def a_masks_def Let_def)

lemma redact_value_no_role:
  "val \<noteq> PNone \<Longrightarrow> key \<notin> role_keys \<Longrightarrow>
     redact_value key val do_b ap haf = PStr (a_masks (py_str val))"
  by (simp add: redact_value_def a_masks_def Let_def role_keys_def)

lemma redact_value_is_text:
  "val \<noteq> PNone \<Longrightarrow> \<exists>t. redact_value key val do_b ap haf = PStr t"
  by (simp add: redact_value_def Let_def)

lemma process_record_keys: "map fst (fst (process_record obj)) = map fst obj"
  by (simp add: process_record_def Let_def comp_def case_prod_unfold split: prod.splits)

lemma process_record_values:
  "list_all2 (\<lambda>(k, v) (k', out). k' = k \<and> (if v = PNone then out = PNone else \<exists>t. out = PStr t))
     obj (fst (process_record obj))"
  by (auto simp: process_record_def Let_def list_all2_map2 redact_value_is_text
        intro!: list_all2_refl split: prod.splits)

lemma a_masks_no_match:
  assumes "\<not> rx_search RE_TEN_DIGITS s" "\<not> rx_search RE_GROUPED s" "\<not> rx_search RE_AADHAR s"
    "\<not> rx_search RE_PASSPORT s" "\<not> rx_search RE_UPI s"
  shows "a_masks s = s"
  using assms
  by (simp add: a_masks_def mask_phone_digits_def mask_aadhar_digits_def mask_passport_in_def
        mask_upi_in_def rx_sub_no_match Let_def)




lemma values_kind_trans:
  assumes "list_all2 (\<lambda>(k, v) (k', out). k' = k \<and> (if v = PNone then out = PNone else \<exists>t. out = PStr t)) xs ys"
    and "list_all2 (\<lambda>(k, v) (k', out). k' = k \<and> (if v = PNone then out = PNone else \<exists>t. out = PStr t)) ys zs"
  shows "list_all2 (\<lambda>(k, v) (k', out). k' = k \<and> (if v = PNone then out = PNone else \<exists>t. out = PStr t)) xs zs"
  using assms
  by (rule list_all2_trans [rotated]) (auto split: if_splits)


section \<open>Direct-identifier detection\<close>





section \<open>The masks applied to every field\<close>





section \<open>The email-only override\<close>

text \<open>
  C3. Whenever the email signal is true and the name, address and device-or-IP signals are
  all false, \<open>process_record\<close> returns the verdict \<open>False\<close> and redacts every field with
  the combination flag forced to \<open>False\<close>, whatever the direct-identifier detection found:
  the statement has no hypothesis on \<open>a_hit\<close>.
\<close>

theorem email_alone_not_pii:
  assumes "count_b_signals obj = (n, fl, ap, haf)"
    and "f_email fl" and "\<not> f_name fl" and "\<not> f_address fl" and "\<not> f_device_or_ip fl"
  shows "process_record obj = (map (\<lambda>(k, v). (k, redact_value k v False ap haf)) obj, False)"
  using assms by (simp add: process_record_def email_alone_def)

text \<open>
  The record holds an isolated email and a phone number: the detection reports a direct
  hit, and the verdict is \<open>False\<close> all the same.
\<close>

theorem email_alone_not_pii_witness:
  "a_hit [(''email'', PStr ''alice@example.com''), (''phone'', PStr ''9876543210'')]
   \<and> process_record [(''email'', PStr ''alice@example.com''), (''phone'', PStr ''9876543210'')]
       = ([(''email'', PStr ''alXXX@example.com''), (''phone'', PStr ''98XXXXXX10'')], False)"
proof -
  let ?obj = "[(''email'', PStr ''alice@example.com''), (''phone'', PStr ''9876543210'')]"
  let ?fl = "\<lparr>f_name = False, f_email = True, f_address = False, f_device_or_ip = False\<rparr>"
  have c: "count_b_signals ?obj = (1, ?fl, 0, False)" by code_simp
  have h: "a_hit ?obj" by code_simp
  have r1: "redact_value ''email'' (PStr ''alice@example.com'') False 0 False = PStr ''alXXX@example.com''"
    by code_simp
  have r2: "redact_value ''phone'' (PStr ''9876543210'') False 0 False = PStr ''98XXXXXX10''"
    by code_simp
  from email_alone_not_pii [OF c] r1 r2 h show ?thesis by simp
qed


section \<open>The passport-like pattern\<close>

text \<open>
  C4, as the claim states it, fails: \<open>X1234567\<close> does not match and is left unmasked, while
  \<open>I1234567\<close> and \<open>O1234567\<close> match.
\<close>

theorem passport_X_counterexample:
  "mask_passport_in ''X1234567'' = ''X1234567'' \<and> \<not> rx_search RE_PASSPORT ''X1234567''
   \<and> rx_search RE_PASSPORT ''I1234567'' \<and> rx_search RE_PASSPORT ''O1234567''
   \<and> mask_passport_in ''I1234567'' = ''IXXXXXX7''"
  by code_simp

text \<open>
  C4, amended. The passport-like pattern matches at a position exactly when the character
  there is a letter of \<open>A-P\<close>, \<open>R-W\<close>, \<open>Y\<close> or their lowercase forms (so not \<open>Q\<close>, \<open>X\<close>, \<open>Z\<close>;
  \<open>I\<close> and \<open>O\<close> are accepted), exactly 7 digits follow, and neither the character before nor
  the character after these eight is a word character. A text of such a letter and 7 digits
  is masked to the letter, six \<open>X\<close> and the last digit; with any other first character it
  is left as it is.
\<close>

theorem passport_pattern:
  "(match_at RE_PASSPORT b (c # xs) \<noteq> None \<longleftrightarrow>
      (\<not> word_before b \<and> passport_letter c \<and> run [CDigit] xs = 7 \<and> \<not> word_here (drop 7 xs)))
   \<and> (length ds = 7 \<longrightarrow>
        mask_passport_in (c # ds) =
          (if passport_letter c \<and> list_all uni_digit ds then c # ''XXXXXX'' @ [last ds] else c # ds))
   \<and> \<not> passport_letter CHR ''Q'' \<and> \<not> passport_letter CHR ''X'' \<and> \<not> passport_letter CHR ''Z''
   \<and> \<not> passport_letter CHR ''q'' \<and> \<not> passport_letter CHR ''x'' \<and> \<not> passport_letter CHR ''z''
   \<and> passport_letter CHR ''I'' \<and> passport_letter CHR ''O''
   \<and> passport_letter CHR ''i'' \<and> passport_letter CHR ''o''"
proof -
  have 1: "match_at RE_PASSPORT b (c # xs) \<noteq> None \<longleftrightarrow>
      (\<not> word_before b \<and> passport_letter c \<and> run [CDigit] xs = 7 \<and> \<not> word_here (drop 7 xs))"
    by (simp add: match_at_PASSPORT_Cons)
  have 2: "length ds = 7 \<longrightarrow>
        mask_passport_in (c # ds) =
          (if passport_letter c \<and> list_all uni_digit ds then c # ''XXXXXX'' @ [last ds] else c # ds)"
    using mask_passport_token [of ds c] by blast
  have 3: "\<not> passport_letter CHR ''Q'' \<and> \<not> passport_letter CHR ''X'' \<and> \<not> passport_letter CHR ''Z''
   \<and> \<not> passport_letter CHR ''q'' \<and> \<not> passport_letter CHR ''x'' \<and> \<not> passport_letter CHR ''z''
   \<and> passport_letter CHR ''I'' \<and> passport_letter CHR ''O''
   \<and> passport_letter CHR ''i'' \<and> passport_letter CHR ''o''"
    by (simp add: passport_letter_def in_range_def code_def)
  from 1 2 3 show ?thesis by blast
qed

theorem passport_pattern_witness:
  "mask_passport_in ''P1234567'' = ''PXXXXXX7'' \<and> mask_passport_in ''X1234567'' = ''X1234567''
   \<and> mask_passport_in ''I1234567'' = ''IXXXXXX7'' \<and> mask_passport_in ''O1234567'' = ''OXXXXXX7''"
proof -
  have l: "length ''1234567'' = 7" by simp
  have d: "list_all uni_digit ''1234567''" by code_simp
  have p: "passport_letter CHR ''P''" by (simp add: passport_letter_def in_range_def code_def)
  from passport_pattern [of "[]" "CHR ''P''" "[]" "''1234567''"] l d p
  have P: "mask_passport_in ''P1234567'' = ''PXXXXXX7''" by simp
  from passport_pattern [of "[]" "CHR ''X''" "[]" "''1234567''"] l
  have X: "mask_passport_in ''X1234567'' = ''X1234567''" by simp
  from passport_pattern [of "[]" "CHR ''I''" "[]" "''1234567''"] l d
  have I: "mask_passport_in ''I1234567'' = ''IXXXXXX7''" by simp
  from passport_pattern [of "[]" "CHR ''O''" "[]" "''1234567''"] l d
  have O: "mask_passport_in ''O1234567'' = ''OXXXXXX7''" by simp
  from P X I O show ?thesis by blast
qed


section \<open>The numeric-identifier exemption in detection\<close>

text \<open>
  C5. For a field whose name is in \<open>NUMERIC_ID_KEYS\<close> the detection reports neither a
  phone-like nor a national-ID-like match, whatever the value is, and it reports the
  passport-like and payment-handle matches exactly as the two patterns find them.
\<close>

theorem exempt_key_detection:
  assumes "key \<in> NUMERIC_ID_KEYS"
  shows "detect_a_in_value key val =
           \<lparr>a_phone = False, a_aadhar = False,
            a_passport = rx_search RE_PASSPORT (str_or_empty val),
            a_upi = rx_search RE_UPI (str_or_empty val)\<rparr>"
  using assms by (simp add: detect_a_in_value_def Let_def)

text \<open>
  An \<open>order_id\<close> whose text holds a 10-digit run, a 12-digit run, a passport-like code and
  a payment handle: both digit patterns match the text, and only the last two are reported.
\<close>

theorem exempt_key_detection_witness:
  "''order_id'' \<in> NUMERIC_ID_KEYS
   \<and> rx_search RE_TEN_DIGITS ''9876543210 123456789012 P1234567 alice@okbank''
   \<and> rx_search RE_AADHAR ''9876543210 123456789012 P1234567 alice@okbank''
   \<and> detect_a_in_value ''order_id'' (PStr ''9876543210 123456789012 P1234567 alice@okbank'')
       = \<lparr>a_phone = False, a_aadhar = False, a_passport = True, a_upi = True\<rparr>"
proof -
  have k: "''order_id'' \<in> NUMERIC_ID_KEYS" by (simp add: NUMERIC_ID_KEYS_def)
  have p: "rx_search RE_PASSPORT (str_or_empty (PStr ''9876543210 123456789012 P1234567 alice@okbank''))"
    by code_simp
  have u: "rx_search RE_UPI (str_or_empty (PStr ''9876543210 123456789012 P1234567 alice@okbank''))"
    by code_simp
  have t: "rx_search RE_TEN_DIGITS ''9876543210 123456789012 P1234567 alice@okbank''" by code_simp
  have a: "rx_search RE_AADHAR ''9876543210 123456789012 P1234567 alice@okbank''" by code_simp
  from exempt_key_detection [OF k] p u t a k show ?thesis by simp
qed


section \<open>National-ID detection against national-ID masking\<close>

text \<open>
  C6. Detection removes every whitespace run of the text before it looks for a 12-digit
  run; masking joins only a 4-4-4 grouping. On \<open>123456 789012\<close> the detection reports a
  national-ID hit and the verdict is \<open>True\<close>, yet the redacted value still shows all twelve
  digits. On \<open>1234 5678 9012 34\<close> it is the other way round: masked, not detected.
\<close>

theorem aadhar_detected_not_masked:
  "a_aadhar (detect_a_in_value ''note'' (PStr ''123456 789012''))
   \<and> process_record [(''note'', PStr ''123456 789012'')] = ([(''note'', PStr ''123456 789012'')], True)
   \<and> \<not> a_aadhar (detect_a_in_value ''note'' (PStr ''1234 5678 9012 34''))
   \<and> redact_value ''note'' (PStr ''1234 5678 9012 34'') False 0 False = PStr ''XXXX XXXX 9012 34''"
  by code_simp


section \<open>A second pass over a redacted record\<close>

text \<open>
  C7, as the claim states it, fails: the national-ID mask leaves four digits visible, and
  on a second pass these join the two digit groups that follow into a new 4-4-4 grouping,
  which is masked again. The second pass changes the redacted record.
\<close>

theorem second_pass_counterexample:
  "fst (process_record [(''note'', PStr ''1234 5678 9012 3456 7890'')])
     = [(''note'', PStr ''XXXX XXXX 9012 3456 7890'')]
   \<and> fst (process_record [(''note'', PStr ''XXXX XXXX 9012 3456 7890'')])
     = [(''note'', PStr ''XXXX XXXX XXXX XXXX 7890'')]"
  by code_simp

text \<open>
  C7, amended. A second pass of \<open>process_record\<close> over the record a first pass returned
  gives a record with the same keys, \<open>None\<close> where the input had \<open>None\<close> and a text everywhere
  else. The phone-like mask and the passport-like mask are idempotent on every text, the
  output of the national-ID mask holds no 12-digit run, and the redaction marker is a fixed
  point of the four A-class masks. That the whole record comes back unchanged is not part
  of the statement.
\<close>

theorem second_pass:
  "map fst (fst (process_record (fst (process_record obj)))) = map fst obj
   \<and> list_all2 (\<lambda>(k, v) (k', out). k' = k \<and> (if v = PNone then out = PNone else \<exists>t. out = PStr t))
        obj (fst (process_record (fst (process_record obj))))
   \<and> mask_phone_digits (mask_phone_digits s) = mask_phone_digits s
   \<and> mask_passport_in (mask_passport_in s) = mask_passport_in s
   \<and> \<not> rx_search RE_AADHAR (mask_aadhar_digits s)
   \<and> a_masks (hard_redact s) = hard_redact s"
proof -
  have 1: "map fst (fst (process_record (fst (process_record obj)))) = map fst obj"
    by (simp add: process_record_keys)
  have 2: "list_all2 (\<lambda>(k, v) (k', out). k' = k \<and> (if v = PNone then out = PNone else \<exists>t. out = PStr t))
        obj (fst (process_record (fst (process_record obj))))"
    using process_record_values [of obj] process_record_values [of "fst (process_record obj)"]
    by (rule values_kind_trans)
  have 3: "a_masks (hard_redact s) = hard_redact s"
    unfolding hard_redact_def by code_simp
  from 1 2 3 mask_phone_idem [of s] mask_passport_idem [of s] aadhar_no_survivor [of s]
  show ?thesis by blast
qed

text \<open>A phone number and a passport-like code: the second pass returns the masked texts.\<close>

theorem second_pass_witness:
  "process_record [(''phone'', PStr ''9876543210''), (''doc'', PStr ''P1234567'')]
     = ([(''phone'', PStr ''98XXXXXX10''), (''doc'', PStr ''PXXXXXX7'')], True)
   \<and> fst (process_record [(''phone'', PStr ''98XXXXXX10''), (''doc'', PStr ''PXXXXXX7'')])
     = [(''phone'', PStr ''98XXXXXX10''), (''doc'', PStr ''PXXXXXX7'')]
   \<and> mask_phone_digits ''98XXXXXX10'' = ''98XXXXXX10''
   \<and> mask_passport_in ''PXXXXXX7'' = ''PXXXXXX7''"
proof -
  have a: "process_record [(''phone'', PStr ''9876543210''), (''doc'', PStr ''P1234567'')]
     = ([(''phone'', PStr ''98XXXXXX10''), (''doc'', PStr ''PXXXXXX7'')], True)"
    by code_simp
  have b: "fst (process_record [(''phone'', PStr ''98XXXXXX10''), (''doc'', PStr ''PXXXXXX7'')])
     = [(''phone'', PStr ''98XXXXXX10''), (''doc'', PStr ''PXXXXXX7'')]"
    by code_simp
  have p: "mask_phone_digits ''9876543210'' = ''98XXXXXX10''" by code_simp
  have q: "mask_passport_in ''P1234567'' = ''PXXXXXX7''" by code_simp
  from second_pass [of "[]" "''9876543210''"]
  have "mask_phone_digits (mask_phone_digits ''9876543210'') = mask_phone_digits ''9876543210''"
    by blast
  then have c: "mask_phone_digits ''98XXXXXX10'' = ''98XXXXXX10''" unfolding p .
  from second_pass [of "[]" "''P1234567''"]
  have "mask_passport_in (mask_passport_in ''P1234567'') = mask_passport_in ''P1234567''"
    by blast
  then have d: "mask_passport_in ''PXXXXXX7'' = ''PXXXXXX7''" unfolding q .
  from a b c d show ?thesis by blast
qed


section \<open>Loading a row that is not an object\<close>

text \<open>
  C8. Where \<open>json.loads\<close> parses the text to a value that is not an object,
  \<open>safe_json_load\<close> returns that value, not the empty mapping, and processing the row
  raises \<open>AttributeError\<close>.
\<close>

theorem safe_json_load_non_mapping:
  assumes "loads (strip raw) = Some (NotMapping v)"
  shows "safe_json_load loads (Some raw) = NotMapping v
         \<and> process_row loads (Some raw) = Inl AttributeError"
  using assms by (simp add: safe_json_load_def process_row_def)

theorem safe_json_load_non_mapping_witness:
  "process_row (\<lambda>t. if t = ''[1, 2]'' then Some (NotMapping (POther ''[1, 2]'' True)) else None)
     (Some ''[1, 2]'') = Inl AttributeError"
proof -
  have s: "strip ''[1, 2]'' = ''[1, 2]''" by code_simp
  show ?thesis
    using safe_json_load_non_mapping
      [of "\<lambda>t. if t = ''[1, 2]'' then Some (NotMapping (POther ''[1, 2]'' True)) else None"
          "''[1, 2]''" "POther ''[1, 2]'' True"] s
    by simp
qed


section \<open>The exemption does not reach redaction\<close>

text \<open>
  C9. For a field whose name is in \<open>NUMERIC_ID_KEYS\<close> and whose value is not \<open>None\<close>,
  redaction applies the A-class masks, the phone-like and national-ID-like masks among
  them, to the value's text, with or without combination redaction, while the detection
  reports neither a phone-like nor a national-ID-like hit for the field.
\<close>

theorem exempt_key_still_masked:
  assumes "key \<in> NUMERIC_ID_KEYS" and "val \<noteq> PNone"
  shows "redact_value key val do_b ap haf = PStr (a_masks (py_str val))
         \<and> \<not> a_phone (detect_a_in_value key val) \<and> \<not> a_aadhar (detect_a_in_value key val)"
proof -
  from assms(1) have "key \<notin> role_keys"
    by (auto simp: NUMERIC_ID_KEYS_def role_keys_def B_NAME_KEYS_def B_FIRST_def B_LAST_def
        B_EMAIL_KEYS_def B_ADDRESS_KEYS_def B_ADDR_PARTS_def B_DEVICE_KEYS_def B_IP_KEYS_def)
  with assms show ?thesis
    by (simp add: redact_value_no_role detect_a_in_value_def Let_def)
qed

text \<open>
  An \<open>order_id\<close> holding a 10-digit number, and one holding a 12-digit number: no direct
  hit, and the digits are masked in the output.
\<close>

theorem exempt_key_still_masked_witness:
  "redact_value ''order_id'' (PInt 9876543210) True 0 False = PStr ''98XXXXXX10''
   \<and> \<not> a_phone (detect_a_in_value ''order_id'' (PInt 9876543210))
   \<and> redact_value ''order_id'' (PStr ''123456789012'') False 0 False = PStr ''XXXX XXXX 9012''
   \<and> \<not> a_aadhar (detect_a_in_value ''order_id'' (PStr ''123456789012''))"
proof -
  have k: "''order_id'' \<in> NUMERIC_ID_KEYS" by (simp add: NUMERIC_ID_KEYS_def)
  have v1: "PInt 9876543210 \<noteq> PNone" and v2: "PStr ''123456789012'' \<noteq> PNone" by simp_all
  have m1: "a_masks (py_str (PInt 9876543210)) = ''98XXXXXX10''" by code_simp
  have m2: "a_masks (py_str (PStr ''123456789012'')) = ''XXXX XXXX 9012''" by code_simp
  have 1: "redact_value ''order_id'' (PInt 9876543210) True 0 False = PStr ''98XXXXXX10''
       \<and> \<not> a_phone (detect_a_in_value ''order_id'' (PInt 9876543210))"
    using exempt_key_still_masked [OF k v1, of True 0 False] unfolding m1 by blast
  have 2: "redact_value ''order_id'' (PStr ''123456789012'') False 0 False = PStr ''XXXX XXXX 9012''
       \<and> \<not> a_aadhar (detect_a_in_value ''order_id'' (PStr ''123456789012''))"
    using exempt_key_still_masked [OF k v2, of False 0 False] unfolding m2 by blast
  from 1 2 show ?thesis by blast
qed


section \<open>Keys and kinds of the output values\<close>

text \<open>
  C10. The output of \<open>process_record\<close> has the keys of the input, in the same order; a
  value \<open>None\<close> is returned as \<open>None\<close> and every other value as a text; where no mask
  pattern matches the value's text and combination redaction does not apply to the field,
  that text is \<open>str(value)\<close>.
\<close>

theorem process_record_frame:
  "map fst (fst (process_record obj)) = map fst obj
   \<and> list_all2 (\<lambda>(k, v) (k', out). k' = k \<and> (if v = PNone then out = PNone else \<exists>t. out = PStr t))
        obj (fst (process_record obj))
   \<and> (val \<noteq> PNone \<longrightarrow> (\<not> do_b \<or> key \<notin> role_keys) \<longrightarrow>
        \<not> rx_search RE_TEN_DIGITS (py_str val) \<longrightarrow> \<not> rx_search RE_GROUPED (py_str val) \<longrightarrow>
        \<not> rx_search RE_AADHAR (py_str val) \<longrightarrow> \<not> rx_search RE_PASSPORT (py_str val) \<longrightarrow>
        \<not> rx_search RE_UPI (py_str val) \<longrightarrow>
        redact_value key val do_b ap haf = PStr (py_str val))"
proof -
  have "redact_value key val do_b ap haf = PStr (py_str val)"
    if "val \<noteq> PNone" "\<not> do_b \<or> key \<notin> role_keys"
      "\<not> rx_search RE_TEN_DIGITS (py_str val)" "\<not> rx_search RE_GROUPED (py_str val)"
      "\<not> rx_search RE_AADHAR (py_str val)" "\<not> rx_search RE_PASSPORT (py_str val)"
      "\<not> rx_search RE_UPI (py_str val)"
  proof -
    have "redact_value key val do_b ap haf = PStr (a_masks (py_str val))"
      using that(1,2) redact_value_no_b redact_value_no_role by (cases do_b) auto
    with that show ?thesis by (simp add: a_masks_no_match)
  qed
  with process_record_keys [of obj] process_record_values [of obj] show ?thesis by blast
qed

text \<open>An integer, a boolean, a list and a float come back as their texts.\<close>

theorem process_record_frame_witness:
  "process_record [(''gone'', PNone), (''qty'', PInt 42), (''paid'', PBool True),
                   (''tags'', POther ''[1, 2]'' True), (''ratio'', POther ''0.0'' False)]
   = ([(''gone'', PNone), (''qty'', PStr ''42''), (''paid'', PStr ''True''),
       (''tags'', PStr ''[1, 2]''), (''ratio'', PStr ''0.0'')], False)
   \<and> redact_value ''qty'' (PInt 42) False 0 False = PStr ''42''"
proof -
  have n: "\<not> rx_search RE_TEN_DIGITS (py_str (PInt 42))" "\<not> rx_search RE_GROUPED (py_str (PInt 42))"
    "\<not> rx_search RE_AADHAR (py_str (PInt 42))" "\<not> rx_search RE_PASSPORT (py_str (PInt 42))"
    "\<not> rx_search RE_UPI (py_str (PInt 42))"
    by code_simp+
  have s: "py_str (PInt 42) = ''42''" by code_simp
  from process_record_frame [of "[]" "PInt 42" False "''qty''" 0 False] n s
  have r: "redact_value ''qty'' (PInt 42) False 0 False = PStr ''42''" by simp
  have p: "process_record [(''gone'', PNone), (''qty'', PInt 42), (''paid'', PBool True),
                   (''tags'', POther ''[1, 2]'' True), (''ratio'', POther ''0.0'' False)]
   = ([(''gone'', PNone), (''qty'', PStr ''42''), (''paid'', PStr ''True''),
       (''tags'', PStr ''[1, 2]''), (''ratio'', PStr ''0.0'')], False)"
    by code_simp
  from r p show ?thesis by blast
qed

end
